theory Spec2Isabelle
  imports Main "HOL-Library.Word" "HOL-Library.List_Lexorder"
begin

unbundle bit_operations_syntax

section \<open>Bytes, integers and the Go library functions the code calls\<close>

text \<open>
  A Go \<open>[]byte\<close> is a list of 8-bit words; the nil slice and the empty slice are both
  \<open>[]\<close> (the code only ever asks for their length and contents, except for
  \<open>node.key == nil\<close>, which is an \<open>option\<close> below).  Lengths and sizes are Go
  \<open>int\<close>s; they are sums of lengths of slices held in memory and stay far below
  \<open>2 ^ 63\<close>, so they are modelled as unbounded integers.
\<close>

type_synonym byte = "8 word"
type_synonym bytes = "byte list"

definition bytes_of :: "string \<Rightarrow> bytes" where
  \<comment> \<open>the Go conversion \<open>[]byte("...")\<close> of an ASCII literal\<close>
  "bytes_of s = map (\<lambda>c. of_char c) s"

definition len :: "'a list \<Rightarrow> int" where
  "len xs = int (length xs)"

definition bytes_Compare :: "bytes \<Rightarrow> bytes \<Rightarrow> int" where
  \<comment> \<open>\<open>bytes.Compare\<close>: lexicographic on unsigned bytes; \<open>-1\<close>, \<open>0\<close> or \<open>1\<close>\<close>
  "bytes_Compare a b = (if a < b then - 1 else if a = b then 0 else 1)"

definition bytes_Equal :: "bytes \<Rightarrow> bytes \<Rightarrow> bool" where
  "bytes_Equal a b = (a = b)"

definition go_quot :: "int \<Rightarrow> int \<Rightarrow> int" where
  \<comment> \<open>Go's \<open>/\<close> on integers truncates towards zero\<close>
  "go_quot a b = sgn a * sgn b * (\<bar>a\<bar> div \<bar>b\<bar>)"

text \<open>
  \<open>sort.Search(n, f)\<close> of the Go library: the binary search itself, so that the model
  says what the code computes also when \<open>f\<close> is not monotone.
\<close>

function sort_Search_loop :: "(nat \<Rightarrow> bool) \<Rightarrow> nat \<Rightarrow> nat \<Rightarrow> nat" where
  "sort_Search_loop f i j =
     (if i < j then
        (let h = (i + j) div 2 in
         if \<not> f h then sort_Search_loop f (h + 1) j else sort_Search_loop f i h)
      else i)"
  by pat_completeness auto
termination
  by (relation "measure (\<lambda>(f, i, j). j - i)") auto

declare sort_Search_loop.simps [simp del]

definition sort_Search :: "nat \<Rightarrow> (nat \<Rightarrow> bool) \<Rightarrow> nat" where
  "sort_Search n f = sort_Search_loop f 0 n"

section \<open>Nodes (node.go)\<close>

text \<open>
  The constants \<open>pageHeaderSize\<close>, \<open>leafPageElementSize\<close>, \<open>branchPageElementSize\<close>
  and \<open>minKeysPerPage\<close> are used by node.go but declared in a file that is not part of
  the sources at hand; they are the fields of a parameter \<open>L\<close>.  \<open>bolt_layout\<close>
  gives them the values that the data model fixes: a 16-byte page header
  (\<open>id\<close> u64, \<open>flags\<close> u16, \<open>count\<close> u16, \<open>overflow\<close> u32), 16-byte leaf and branch
  elements, and two keys per page at least.
\<close>

record layout =
  pageHeaderSize :: nat
  leafPageElementSize :: nat
  branchPageElementSize :: nat
  minKeysPerPage :: nat

definition bolt_layout :: layout where
  "bolt_layout = \<lparr>pageHeaderSize = 16, leafPageElementSize = 16,
                   branchPageElementSize = 16, minKeysPerPage = 2\<rparr>"

text \<open>\<open>type inode struct\<close>; the field \<open>value\<close> is called \<open>val\<close> here.\<close>

record inode =
  flags :: "32 word"
  pgid :: "64 word"
  key :: bytes
  val :: bytes

definition inode_zero :: inode where
  \<comment> \<open>the Go zero value \<open>inode{}\<close>\<close>
  "inode_zero = \<lparr>flags = 0, pgid = 0, key = [], val = []\<rparr>"

text \<open>
  \<open>type node struct\<close>.  Nodes are shared through pointers (\<open>parent\<close>, \<open>children\<close>,
  the list that \<open>split\<close> returns), so they live in a store: a reference is an index
  into the list of all nodes allocated so far, and \<open>&node{...}\<close> appends to it.
  The fields \<open>key\<close> and \<open>pgid\<close> of a node are \<open>node_key\<close> and \<open>node_pgid\<close>.
  Every node of the program belongs to a bucket of one transaction (\<open>split\<close> hands
  \<open>n.bucket\<close> on to the nodes it creates), whose counter \<open>stats.Split\<close> is a field
  of the store.
\<close>

type_synonym ref = nat

record node =
  isLeaf :: bool
  unbalanced :: bool
  node_key :: "bytes option"
  node_pgid :: "64 word"
  parent :: "ref option"
  children :: "ref list"
  inodes :: "inode list"

record store =
  heap :: "node list"
  stats_Split :: nat

definition node_zero :: node where
  "node_zero = \<lparr>isLeaf = False, unbalanced = False, node_key = None, node_pgid = 0,
                 parent = None, children = [], inodes = []\<rparr>"

definition deref :: "store \<Rightarrow> ref \<Rightarrow> node" where
  "deref s r = heap s ! r"

definition assign :: "ref \<Rightarrow> (node \<Rightarrow> node) \<Rightarrow> store \<Rightarrow> store" where
  \<comment> \<open>a write through the pointer \<open>r\<close>\<close>
  "assign r f s = s\<lparr>heap := (heap s)[r := f (heap s ! r)]\<rparr>"

definition alloc :: "node \<Rightarrow> store \<Rightarrow> ref \<times> store" where
  \<comment> \<open>\<open>&node{...}\<close>: a fresh reference\<close>
  "alloc nd s = (length (heap s), s\<lparr>heap := heap s @ [nd]\<rparr>)"

definition pageElementSize :: "layout \<Rightarrow> node \<Rightarrow> int" where
  "pageElementSize L n =
     (if isLeaf n then int (leafPageElementSize L) else int (branchPageElementSize L))"

definition elemBytes :: "layout \<Rightarrow> node \<Rightarrow> inode \<Rightarrow> int" where
  \<comment> \<open>\<open>n.pageElementSize() + len(inode.key) + len(inode.value)\<close>\<close>
  "elemBytes L n item = pageElementSize L n + len (key item) + len (val item)"

definition size_node :: "layout \<Rightarrow> node \<Rightarrow> int" where
  \<comment> \<open>\<open>node.size\<close>: the loop over \<open>n.inodes\<close> is a left fold\<close>
  "size_node L n =
     foldl (\<lambda>sz item. sz + (pageElementSize L n + len (key item) + len (val item)))
       (int (pageHeaderSize L)) (inodes n)"

definition minKeys :: "node \<Rightarrow> int" where
  "minKeys n = (if isLeaf n then 1 else 2)"

subsection \<open>put and del\<close>

definition put :: "node \<Rightarrow> bytes \<Rightarrow> bytes \<Rightarrow> bytes \<Rightarrow> 64 word \<Rightarrow> 32 word \<Rightarrow> node" where
  "put n oldKey newKey value pgid' flags' =
     (let xs = inodes n;
          index = sort_Search (length xs) (\<lambda>i. bytes_Compare (key (xs ! i)) oldKey \<noteq> - 1);
          exact = (length xs > 0 \<and> index < length xs \<and> bytes_Equal (key (xs ! index)) oldKey);
          ys = (if \<not> exact
                then (let zs = xs @ [inode_zero]
                      in take (index + 1) zs @ take (length zs - (index + 1)) (drop index zs))
                else xs)
      in n\<lparr>inodes := ys[index := \<lparr>flags = flags', pgid = pgid', key = newKey, val = value\<rparr>]\<rparr>)"

definition del :: "node \<Rightarrow> bytes \<Rightarrow> node" where
  "del n k =
     (let xs = inodes n;
          index = sort_Search (length xs) (\<lambda>i. bytes_Compare (key (xs ! i)) k \<noteq> - 1)
      in if index \<ge> length xs \<or> \<not> bytes_Equal (key (xs ! index)) k then n
         else n\<lparr>inodes := take index xs @ drop (index + 1) xs, unbalanced := True\<rparr>)"

subsection \<open>split\<close>

text \<open>
  The state of the loop of \<open>split\<close>: the list \<open>nodes\<close>, the pointer \<open>current\<close>, the
  running total \<open>size\<close> and the store.
\<close>

record split_state =
  nodes :: "ref list"
  current :: ref
  running :: int
  mem :: store

definition split_cut :: "ref \<Rightarrow> split_state \<Rightarrow> layout \<Rightarrow> split_state" where
  \<comment> \<open>the body of the \<open>if\<close> in the loop: a new node starts\<close>
  "split_cut n st L =
     (let s0 = mem st;
          s1 = (if parent (deref s0 n) = None
                then (let (p, s) = alloc (node_zero\<lparr>children := [n]\<rparr>) s0
                      in assign n (\<lambda>x. x\<lparr>parent := Some p\<rparr>) s)
                else s0);
          p = the (parent (deref s1 n));
          (c, s2) = alloc (node_zero\<lparr>isLeaf := isLeaf (deref s1 n), parent := Some p\<rparr>) s1;
          s3 = assign p (\<lambda>x. x\<lparr>children := children x @ [c]\<rparr>) s2
      in \<lparr>nodes = nodes st @ [c], current = c, running = int (pageHeaderSize L),
          mem = s3\<lparr>stats_Split := stats_Split s3 + 1\<rparr>\<rparr>)"

fun split_loop :: "layout \<Rightarrow> ref \<Rightarrow> int \<Rightarrow> nat \<Rightarrow> nat \<Rightarrow> inode list \<Rightarrow> split_state \<Rightarrow> split_state" where
  "split_loop L n threshold tot i [] st = st"
| "split_loop L n threshold tot i (item # rest) st =
     (let elemSize = elemBytes L (deref (mem st) n) item;
          st1 = (if len (inodes (deref (mem st) (current st))) \<ge> int (minKeysPerPage L)
                    \<and> int i < int tot - int (minKeysPerPage L)
                    \<and> running st + elemSize > threshold
                 then split_cut n st L else st);
          st2 = st1\<lparr>running := running st1 + elemSize,
                    mem := assign (current st1) (\<lambda>x. x\<lparr>inodes := inodes x @ [item]\<rparr>) (mem st1)\<rparr>
      in split_loop L n threshold tot (i + 1) rest st2)"

definition split :: "layout \<Rightarrow> ref \<Rightarrow> int \<Rightarrow> store \<Rightarrow> ref list \<times> store" where
  "split L n pageSize s =
     (if len (inodes (deref s n)) \<le> int (minKeysPerPage L) * 2 \<or> size_node L (deref s n) < pageSize
      then ([n], s)
      else (let threshold = go_quot pageSize 2;
                internalNodes = inodes (deref s n);
                st = \<lparr>nodes = [n], current = n, running = int (pageHeaderSize L),
                      mem = assign n (\<lambda>x. x\<lparr>inodes := []\<rparr>) s\<rparr>;
                st' = split_loop L n threshold (length internalNodes) 0 internalNodes st
            in (nodes st', mem st')))"


definition returned_inodes :: "layout \<Rightarrow> ref \<Rightarrow> int \<Rightarrow> store \<Rightarrow> inode list list" where
  \<comment> \<open>the inode sequences of the nodes that \<open>n.split(pageSize)\<close> returns, in list order\<close>
  "returned_inodes L n pageSize s =
     map (\<lambda>r. inodes (deref (snd (split L n pageSize s)) r)) (fst (split L n pageSize s))"

definition returned_isLeaf :: "layout \<Rightarrow> ref \<Rightarrow> int \<Rightarrow> store \<Rightarrow> bool list" where
  "returned_isLeaf L n pageSize s =
     map (\<lambda>r. isLeaf (deref (snd (split L n pageSize s)) r)) (fst (split L n pageSize s))"

subsection \<open>The split algorithm as the specification words it\<close>

text \<open>
  The specification describes \<open>split\<close> by the positions at which a cut is made.  Walking
  the inodes in order with the number of inodes of the current node and the running byte
  total, position \<open>i\<close> is a cut when the current node has at least \<open>minKeysPerPage\<close>
  inodes, \<open>i\<close> stands in the relation \<open>cmp\<close> to \<open>totalInodes - minKeysPerPage\<close>, and the
  running total plus the bytes of the next element exceeds the threshold; the running
  total then starts again at the header size.  The specification's text has \<open>\<le>\<close> for
  \<open>cmp\<close>.
\<close>

definition elemSize_of :: "layout \<Rightarrow> bool \<Rightarrow> inode \<Rightarrow> int" where
  "elemSize_of L leaf item =
     (if leaf then int (leafPageElementSize L) else int (branchPageElementSize L))
       + len (key item) + len (val item)"

fun spec_cuts :: "(int \<Rightarrow> int \<Rightarrow> bool) \<Rightarrow> layout \<Rightarrow> bool \<Rightarrow> int \<Rightarrow> nat \<Rightarrow> nat \<Rightarrow> inode list
    \<Rightarrow> nat \<Rightarrow> int \<Rightarrow> nat list" where
  "spec_cuts cmp L leaf threshold tot i [] cnt run = []"
| "spec_cuts cmp L leaf threshold tot i (item # rest) cnt run =
     (if cnt \<ge> minKeysPerPage L \<and> cmp (int i) (int tot - int (minKeysPerPage L))
         \<and> run + elemSize_of L leaf item > threshold
      then i # spec_cuts cmp L leaf threshold tot (i + 1) rest 1
                 (int (pageHeaderSize L) + elemSize_of L leaf item)
      else spec_cuts cmp L leaf threshold tot (i + 1) rest (cnt + 1)
             (run + elemSize_of L leaf item))"

fun slices :: "'a list \<Rightarrow> nat list \<Rightarrow> nat \<Rightarrow> 'a list list" where
  \<comment> \<open>\<open>ys\<close> starts at position \<open>base\<close> and is cut at the ascending positions \<open>cs\<close>\<close>
  "slices ys [] base = [ys]"
| "slices ys (c # cs) base = take (c - base) ys # slices (drop (c - base) ys) cs c"

definition spec_size :: "layout \<Rightarrow> node \<Rightarrow> int" where
  \<comment> \<open>serialized bytes: header + elements + key/value payloads\<close>
  "spec_size L nd = int (pageHeaderSize L) + (\<Sum>item\<leftarrow>inodes nd. elemSize_of L (isLeaf nd) item)"

definition spec_no_split :: "layout \<Rightarrow> node \<Rightarrow> int \<Rightarrow> bool" where
  "spec_no_split L nd pageSize \<longleftrightarrow>
     spec_size L nd < pageSize \<or> length (inodes nd) \<le> 2 * minKeysPerPage L"

definition spec_split :: "(int \<Rightarrow> int \<Rightarrow> bool) \<Rightarrow> layout \<Rightarrow> node \<Rightarrow> int \<Rightarrow> inode list list" where
  "spec_split cmp L nd pageSize =
     (if spec_no_split L nd pageSize then [inodes nd]
      else slices (inodes nd)
             (spec_cuts cmp L (isLeaf nd) (go_quot pageSize 2) (length (inodes nd)) 0 (inodes nd) 0
                (int (pageHeaderSize L)))
             0)"

subsection \<open>Example nodes\<close>

definition mk_inode :: "string \<Rightarrow> string \<Rightarrow> inode" where
  "mk_inode k v = \<lparr>flags = 0, pgid = 0, key = bytes_of k, val = bytes_of v\<rparr>"

definition five_keys :: "string list" where
  "five_keys = [''00000001'', ''00000002'', ''00000003'', ''00000004'', ''00000005'']"


definition store6 :: store where
  \<comment> \<open>the same node with a sixth key\<close>
  "store6 = \<lparr>heap = [node_zero\<lparr>inodes := map (\<lambda>k. mk_inode k ''0123456701234567'')
                                             (five_keys @ [''00000006''])\<rparr>],
             stats_Split = 0\<rparr>"

subsection \<open>Invariant of the loop of split\<close>

definition frame :: "store \<Rightarrow> store \<Rightarrow> bool" where
  \<comment> \<open>\<open>s'\<close> extends \<open>s\<close> and leaves \<open>inodes\<close> and \<open>isLeaf\<close> of every node of \<open>s\<close> alone\<close>
  "frame s s' \<longleftrightarrow>
     length (heap s) \<le> length (heap s')
     \<and> (\<forall>r < length (heap s). inodes (deref s' r) = inodes (deref s r)
                               \<and> isLeaf (deref s' r) = isLeaf (deref s r))"

definition split_inv :: "ref \<Rightarrow> split_state \<Rightarrow> bool" where
  "split_inv n st \<longleftrightarrow>
     nodes st \<noteq> [] \<and> last (nodes st) = current st \<and> distinct (nodes st)
     \<and> (\<forall>r \<in> set (nodes st). r < length (heap (mem st)))
     \<and> n < length (heap (mem st))
     \<and> (\<forall>r \<in> set (nodes st). isLeaf (deref (mem st) r) = isLeaf (deref (mem st) n))"

definition split_parent :: "ref \<Rightarrow> store \<Rightarrow> store" where
  \<comment> \<open>the first statement of a cut: \<open>if n.parent == nil { n.parent = &node{...} }\<close>\<close>
  "split_parent n s0 =
     (if parent (deref s0 n) = None
      then (let (p, s) = alloc (node_zero\<lparr>children := [n]\<rparr>) s0
            in assign n (\<lambda>x. x\<lparr>parent := Some p\<rparr>) s)
      else s0)"

definition split_append :: "inode \<Rightarrow> int \<Rightarrow> split_state \<Rightarrow> split_state" where
  \<comment> \<open>the last two statements of the loop body\<close>
  "split_append item elemSize st1 =
     st1\<lparr>running := running st1 + elemSize,
         mem := assign (current st1) (\<lambda>x. x\<lparr>inodes := inodes x @ [item]\<rparr>) (mem st1)\<rparr>"

subsection \<open>The sequence of puts of the test of put\<close>

definition put_example :: node where
  "put_example =
     put (put (put (put node_zero (bytes_of ''baz'') (bytes_of ''baz'') (bytes_of ''2'') 0 0)
                   (bytes_of ''foo'') (bytes_of ''foo'') (bytes_of ''0'') 0 0)
              (bytes_of ''bar'') (bytes_of ''bar'') (bytes_of ''1'') 0 0)
         (bytes_of ''foo'') (bytes_of ''foo'') (bytes_of ''3'') 0 0"

section \<open>The database file (db.go)\<close>

text \<open>
  Go's \<open>int\<close> is a signed integer of 32 or 64 bits; \<open>w\<close> is its width.  Sums and products
  wrap around, \<open>/\<close> and \<open>%\<close> truncate towards zero, and a division by zero panics.
\<close>

definition go_int :: "nat \<Rightarrow> int \<Rightarrow> int" where
  "go_int w x = signed_take_bit (w - 1) x"

definition go_rem :: "int \<Rightarrow> int \<Rightarrow> int" where
  \<comment> \<open>Go's \<open>%\<close>: the remainder has the sign of the dividend\<close>
  "go_rem a b = sgn a * (\<bar>a\<bar> mod \<bar>b\<bar>)"

definition minMmapSize :: int where
  "minMmapSize = push_bit 22 1"

definition maxMmapStep :: int where
  "maxMmapStep = push_bit 30 1"

definition mmapSize :: "nat \<Rightarrow> int \<Rightarrow> int \<Rightarrow> int option" where
  \<comment> \<open>\<open>db.mmapSize(size)\<close> with \<open>db.pageSize = pageSize\<close>; \<open>None\<close> is the panic of \<open>%\<close>\<close>
  "mmapSize w pageSize sz =
     (if sz < minMmapSize then Some minMmapSize
      else (let sz1 = (if sz < maxMmapStep then go_int w (sz * 2)
                       else go_int w (sz + maxMmapStep))
            in if pageSize = 0 then None
               else if go_rem sz1 pageSize \<noteq> 0
                    then Some (go_int w (go_int w (go_int w (go_quot sz1 pageSize) + 1) * pageSize))
                    else Some sz1))"

subsection \<open>The meta pages\<close>

text \<open>
  The type \<open>meta\<close> is declared outside the sources at hand; its fields are those that
  \<open>init\<close> writes.  \<open>DB.meta\<close> is defined for every extension of the record, so also for a
  meta that carries further fields.
\<close>

record meta =
  magic :: "32 word"
  version :: "32 word"
  meta_pageSize :: "32 word"
  freelist :: "64 word"
  buckets :: "64 word"
  meta_pgid :: "64 word"
  txid :: "64 word"

record 'a DB =
  meta0 :: "'a meta_scheme"
  meta1 :: "'a meta_scheme"

definition DB_meta :: "'a DB \<Rightarrow> 'a meta_scheme" where
  "DB_meta db = (if txid (meta0 db) > txid (meta1 db) then meta0 db else meta1 db)"

text \<open>
  The meta of the specification has a field \<open>checksum\<close> more (and \<open>flags\<close>).  A meta
  checksums correctly when the field holds the sum of the other fields; the sum \<open>csum\<close> is a
  parameter, a function of the meta with the field set to zero.  \<open>spec_current\<close> is the
  selection in the words of the specification: of the metas that checksum correctly, the
  one with the higher \<open>txid\<close>.
\<close>

record cmeta = meta +
  meta_flags :: "32 word"
  checksum :: "64 word"

definition checksums_correctly :: "(cmeta \<Rightarrow> 64 word) \<Rightarrow> cmeta \<Rightarrow> bool" where
  "checksums_correctly csum m = (checksum m = csum (m\<lparr>checksum := 0\<rparr>))"

definition spec_current :: "(cmeta \<Rightarrow> bool) \<Rightarrow> cmeta \<Rightarrow> cmeta \<Rightarrow> cmeta option" where
  "spec_current ok m0 m1 =
     (if ok m0 \<and> ok m1 then Some (if txid m0 > txid m1 then m0 else m1)
      else if ok m0 then Some m0
      else if ok m1 then Some m1
      else None)"

definition meta_example :: "64 word \<Rightarrow> 64 word \<Rightarrow> cmeta" where
  \<comment> \<open>the meta that \<open>init\<close> writes for a page size of 4096, with a transaction id and a checksum\<close>
  "meta_example i c =
     \<lparr>magic = 0xED0CDAED, version = 1, meta_pageSize = 4096, freelist = 2, buckets = 3,
      meta_pgid = 4, txid = i, meta_flags = 0, checksum = c\<rparr>"

section \<open>Buckets (bucket.go)\<close>

datatype error =
    ErrTxClosed
  | ErrBucketNotWritable
  | ErrKeyRequired
  | ErrKeyTooLarge
  | ErrValueTooLarge
  | ErrSequenceOverflow

text \<open>
  A \<open>Bucket\<close> points to its transaction.  Of the transaction the functions below read
  whether it is open (\<open>tx.db != nil\<close>) and whether it is writable, and they change its
  cursor counter and its tree of nodes and pages, of a type \<open>'t\<close> left open here.
\<close>

record 't Tx =
  tx_open :: bool
  tx_writable :: bool
  stats_CursorCount :: nat
  tree :: 't

record 't Bucket =
  root :: "64 word"
  sequence :: "64 word"
  bucket_name :: string
  tx :: "'t Tx"

text \<open>
  The constants \<open>MaxKeySize\<close> and \<open>MaxValueSize\<close> are declared outside the sources at hand;
  they are the fields of a parameter.  So is \<open>maxInt\<close>: by the comment at its use in
  \<open>NextSequence\<close>, "the maximum integer size of the system", it is the largest value of
  an \<open>int\<close> of \<open>w\<close> bits.
\<close>

record limits =
  MaxKeySize :: int
  MaxValueSize :: int

definition maxInt :: "nat \<Rightarrow> int" where
  "maxInt w = 2 ^ (w - 1) - 1"

definition Writable :: "'t Bucket \<Rightarrow> bool" where
  "Writable b = tx_writable (tx b)"

definition Cursor_count :: "'t Bucket \<Rightarrow> 't Bucket" where
  \<comment> \<open>the effect of \<open>b.Cursor()\<close> on the transaction\<close>
  "Cursor_count b = b\<lparr>tx := (tx b)\<lparr>stats_CursorCount := stats_CursorCount (tx b) + 1\<rparr>\<rparr>"

text \<open>
  \<open>Bucket.Put\<close>.  After the checks the code seeks the key with a cursor and puts the pair
  into the node under the cursor (\<open>c.node(b.tx).put(key, key, value, 0)\<close>); \<open>Cursor.node\<close>
  is not among the sources, and the insertion is the parameter \<open>ins\<close>, a function of
  the key, the value, the root page and the tree.
\<close>

definition Put ::
  "limits \<Rightarrow> (bytes \<Rightarrow> bytes \<Rightarrow> 64 word \<Rightarrow> 't \<Rightarrow> 't) \<Rightarrow> 't Bucket \<Rightarrow> bytes \<Rightarrow> bytes
     \<Rightarrow> error option \<times> 't Bucket" where
  "Put M ins b k v =
     (if \<not> tx_open (tx b) then (Some ErrTxClosed, b)
      else if \<not> Writable b then (Some ErrBucketNotWritable, b)
      else if len k = 0 then (Some ErrKeyRequired, b)
      else if len k > MaxKeySize M then (Some ErrKeyTooLarge, b)
      else if len v > MaxValueSize M then (Some ErrValueTooLarge, b)
      else (let b1 = Cursor_count b
            in (None, b1\<lparr>tx := (tx b1)\<lparr>tree := ins k v (root b1) (tree (tx b1))\<rparr>\<rparr>)))"

definition NextSequence :: "nat \<Rightarrow> 't Bucket \<Rightarrow> (int \<times> error option) \<times> 't Bucket" where
  \<comment> \<open>\<open>uint64(maxInt)\<close> is \<open>word_of_int\<close>, \<open>int(sequence)\<close> keeps the low \<open>w\<close> bits, signed\<close>
  "NextSequence w b =
     (if \<not> tx_open (tx b) then ((0, Some ErrTxClosed), b)
      else if \<not> Writable b then ((0, Some ErrBucketNotWritable), b)
      else if sequence b = word_of_int (maxInt w) then ((0, Some ErrSequenceOverflow), b)
      else (let b1 = b\<lparr>sequence := sequence b + 1\<rparr>
            in ((go_int w (uint (sequence b1)), None), b1)))"

definition bucket_example :: "bool \<Rightarrow> 64 word \<Rightarrow> unit Bucket" where
  \<comment> \<open>a bucket of an open transaction\<close>
  "bucket_example wr sq =
     \<lparr>root = 3, sequence = sq, bucket_name = ''widgets'',
      tx = \<lparr>tx_open = True, tx_writable = wr, stats_CursorCount = 0, tree = ()\<rparr>\<rparr>"

definition limits_example :: limits where
  "limits_example = \<lparr>MaxKeySize = 32768, MaxValueSize = 2147483647\<rparr>"

section \<open>Proofs: split\<close>

subsection \<open>The store\<close>

lemma nth_upd: "xs[i := x] ! j = (if i = j \<and> i < length xs then x else xs ! j)"
  by (cases "i < length xs") (auto simp: list_update_beyond)

lemma frame_refl: "frame s s"
  by (simp add: frame_def)

lemma frame_trans: "frame s s' \<Longrightarrow> frame s' s'' \<Longrightarrow> frame s s''"
  by (simp add: frame_def)

lemma frame_assign:
  assumes "\<And>x. inodes (f x) = inodes x" and "\<And>x. isLeaf (f x) = isLeaf x"
  shows "frame s (assign q f s)"
  using assms by (simp add: frame_def assign_def deref_def nth_upd)

lemma frame_alloc: "frame s (snd (alloc nd s))"
  by (simp add: frame_def alloc_def deref_def nth_append)

lemma frame_stats: "frame s (s\<lparr>stats_Split := k\<rparr>)"
  by (simp add: frame_def deref_def)

lemma alloc_new:
  "fst (alloc nd s) = length (heap s)"
  "length (heap (snd (alloc nd s))) = Suc (length (heap s))"
  "deref (snd (alloc nd s)) (length (heap s)) = nd"
  by (simp_all add: alloc_def deref_def)

lemma deref_stats: "deref (s\<lparr>stats_Split := k\<rparr>) r = deref s r"
  by (simp add: deref_def)

lemma length_heap_assign: "length (heap (assign q f s)) = length (heap s)"
  by (simp add: assign_def)

lemma deref_assign:
  "deref (assign q f s) r = (if r = q \<and> q < length (heap s) then f (deref s q) else deref s r)"
  by (simp add: assign_def deref_def nth_upd)

lemma inodes_assign_pres:
  "(\<And>x. inodes (f x) = inodes x) \<Longrightarrow> inodes (deref (assign q f s) r) = inodes (deref s r)"
  by (simp add: deref_assign)

lemma isLeaf_assign_pres:
  "(\<And>x. isLeaf (f x) = isLeaf x) \<Longrightarrow> isLeaf (deref (assign q f s) r) = isLeaf (deref s r)"
  by (simp add: deref_assign)

subsection \<open>One cut\<close>

lemma frame_split_parent: "frame s (split_parent n s)"
proof (cases "parent (deref s n) = None")
  case True
  have "frame s (snd (alloc (node_zero\<lparr>children := [n]\<rparr>) s))"
    by (rule frame_alloc)
  moreover have "frame (snd (alloc (node_zero\<lparr>children := [n]\<rparr>) s))
      (assign n (\<lambda>x. x\<lparr>parent := Some (fst (alloc (node_zero\<lparr>children := [n]\<rparr>) s))\<rparr>)
         (snd (alloc (node_zero\<lparr>children := [n]\<rparr>) s)))"
    by (rule frame_assign) simp_all
  ultimately show ?thesis
    using True by (simp add: split_parent_def split_beta) (blast intro: frame_trans)
next
  case False
  then show ?thesis by (auto simp: split_parent_def frame_refl)
qed

lemma split_cut_unfold:
  "split_cut n st L =
     (let s1 = split_parent n (mem st);
          p = the (parent (deref s1 n));
          c = length (heap s1);
          s2 = snd (alloc (node_zero\<lparr>isLeaf := isLeaf (deref s1 n), parent := Some p\<rparr>) s1);
          s3 = assign p (\<lambda>x. x\<lparr>children := children x @ [c]\<rparr>) s2
      in \<lparr>nodes = nodes st @ [c], current = c, running = int (pageHeaderSize L),
          mem = s3\<lparr>stats_Split := stats_Split s3 + 1\<rparr>\<rparr>)"
  by (simp add: split_cut_def split_parent_def Let_def split_beta alloc_def)

lemma split_cut_nodes:
  "nodes (split_cut n st L) = nodes st @ [current (split_cut n st L)]"
  "running (split_cut n st L) = int (pageHeaderSize L)"
  by (simp_all add: split_cut_unfold Let_def)

lemma split_cut_frame: "frame (mem st) (mem (split_cut n st L))"
proof -
  let ?s1 = "split_parent n (mem st)"
  let ?nd = "node_zero\<lparr>isLeaf := isLeaf (deref ?s1 n), parent := Some (the (parent (deref ?s1 n)))\<rparr>"
  let ?s2 = "snd (alloc ?nd ?s1)"
  let ?s3 = "assign (the (parent (deref ?s1 n))) (\<lambda>x. x\<lparr>children := children x @ [length (heap ?s1)]\<rparr>) ?s2"
  have "frame (mem st) ?s1" by (rule frame_split_parent)
  moreover have "frame ?s1 ?s2" by (rule frame_alloc)
  moreover have "frame ?s2 ?s3" by (rule frame_assign) simp_all
  moreover have "frame ?s3 (?s3\<lparr>stats_Split := stats_Split ?s3 + 1\<rparr>)" by (rule frame_stats)
  ultimately have "frame (mem st) (?s3\<lparr>stats_Split := stats_Split ?s3 + 1\<rparr>)"
    by (blast intro: frame_trans)
  then show ?thesis by (simp add: split_cut_unfold Let_def)
qed

lemma split_cut_current:
  "length (heap (mem st)) \<le> current (split_cut n st L)"
  "current (split_cut n st L) < length (heap (mem (split_cut n st L)))"
  "inodes (deref (mem (split_cut n st L)) (current (split_cut n st L))) = []"
  "n < length (heap (mem st)) \<Longrightarrow>
     isLeaf (deref (mem (split_cut n st L)) (current (split_cut n st L))) = isLeaf (deref (mem st) n)"
proof -
  let ?s1 = "split_parent n (mem st)"
  have f1: "frame (mem st) ?s1" by (rule frame_split_parent)
  then show "length (heap (mem st)) \<le> current (split_cut n st L)"
    by (simp add: split_cut_unfold Let_def frame_def)
  show "current (split_cut n st L) < length (heap (mem (split_cut n st L)))"
    by (simp add: split_cut_unfold Let_def length_heap_assign alloc_new)
  show "inodes (deref (mem (split_cut n st L)) (current (split_cut n st L))) = []"
    by (simp add: split_cut_unfold Let_def inodes_assign_pres alloc_new deref_stats
        node_zero_def)
  show "isLeaf (deref (mem (split_cut n st L)) (current (split_cut n st L))) = isLeaf (deref (mem st) n)"
    if "n < length (heap (mem st))"
  proof -
    have "isLeaf (deref ?s1 n) = isLeaf (deref (mem st) n)"
      using f1 that by (simp add: frame_def)
    then show ?thesis
      by (simp add: split_cut_unfold Let_def isLeaf_assign_pres alloc_new
          deref_stats node_zero_def)
  qed
qed

lemma inodes_frame:
  "frame s s' \<Longrightarrow> \<forall>r \<in> set rs. r < length (heap s) \<Longrightarrow>
     map (\<lambda>r. inodes (deref s' r)) rs = map (\<lambda>r. inodes (deref s r)) rs"
  by (simp add: frame_def)

lemma split_cut_inv:
  assumes "split_inv n st"
  shows "split_inv n (split_cut n st L)"
proof -
  let ?st' = "split_cut n st L"
  let ?c = "current ?st'"
  have fr: "frame (mem st) (mem ?st')" by (rule split_cut_frame)
  have n: "n < length (heap (mem st))" using assms by (simp add: split_inv_def)
  have old: "\<forall>r \<in> set (nodes st). r < length (heap (mem st))"
    using assms by (simp add: split_inv_def)
  have c1: "length (heap (mem st)) \<le> ?c" by (rule split_cut_current)
  have c2: "?c < length (heap (mem ?st'))" by (rule split_cut_current)
  have c4: "isLeaf (deref (mem ?st') ?c) = isLeaf (deref (mem st) n)"
    using n by (rule split_cut_current)
  have nl: "isLeaf (deref (mem ?st') n) = isLeaf (deref (mem st) n)"
    using fr n by (simp add: frame_def)
  have len: "length (heap (mem st)) \<le> length (heap (mem ?st'))"
    using fr by (simp add: frame_def)
  have notin: "?c \<notin> set (nodes st)"
    using old c1 by auto
  have leafs: "\<forall>r \<in> set (nodes st). isLeaf (deref (mem ?st') r) = isLeaf (deref (mem ?st') n)"
    using assms fr old nl by (simp add: split_inv_def frame_def)
  show ?thesis
    unfolding split_inv_def
    using assms notin old len c2 c4 nl leafs n
    by (auto simp: split_cut_nodes(1) [of n st L] split_inv_def)
qed

lemma split_cut_view:
  assumes "split_inv n st"
  shows "map (\<lambda>r. inodes (deref (mem (split_cut n st L)) r)) (nodes st)
         = map (\<lambda>r. inodes (deref (mem st) r)) (nodes st)"
  using assms split_cut_frame [of st n L] by (simp add: inodes_frame split_inv_def)

subsection \<open>Appending the inode\<close>

lemma split_append_simps:
  "nodes (split_append item e st) = nodes st"
  "current (split_append item e st) = current st"
  "running (split_append item e st) = running st + e"
  by (simp_all add: split_append_def)

lemma split_append_inv:
  assumes "split_inv n st"
  shows "split_inv n (split_append item e st)"
  using assms
  by (simp add: split_inv_def split_append_def length_heap_assign isLeaf_assign_pres)

lemma split_append_isLeaf:
  "isLeaf (deref (mem (split_append item e st)) r) = isLeaf (deref (mem st) r)"
  by (simp add: split_append_def isLeaf_assign_pres)

lemma split_append_current:
  assumes "split_inv n st"
  shows "inodes (deref (mem (split_append item e st)) (current st))
         = inodes (deref (mem st) (current st)) @ [item]"
proof -
  have "current st \<in> set (nodes st)"
    using assms by (metis last_in_set split_inv_def)
  then have "current st < length (heap (mem st))"
    using assms by (simp add: split_inv_def)
  then show ?thesis
    by (simp add: split_append_def deref_assign)
qed

lemma last_notin_butlast: "distinct xs \<Longrightarrow> xs \<noteq> [] \<Longrightarrow> last xs \<notin> set (butlast xs)"
  by (induction xs) (auto dest: in_set_butlastD)

lemma split_append_butlast:
  assumes "split_inv n st"
  shows "map (\<lambda>r. inodes (deref (mem (split_append item e st)) r)) (butlast (nodes st))
         = map (\<lambda>r. inodes (deref (mem st) r)) (butlast (nodes st))"
proof -
  have "current st \<notin> set (butlast (nodes st))"
    using assms last_notin_butlast [of "nodes st"] by (simp add: split_inv_def)
  then show ?thesis
    by (auto simp: split_append_def deref_assign)
qed

lemma split_loop_Cons:
  "split_loop L n threshold tot i (item # rest) st =
     (let elemSize = elemSize_of L (isLeaf (deref (mem st) n)) item;
          st1 = (if length (inodes (deref (mem st) (current st))) \<ge> minKeysPerPage L
                    \<and> int i < int tot - int (minKeysPerPage L)
                    \<and> running st + elemSize > threshold
                 then split_cut n st L else st)
      in split_loop L n threshold tot (i + 1) rest (split_append item elemSize st1))"
  by (simp add: Let_def split_append_def elemBytes_def elemSize_of_def pageElementSize_def len_def)

declare split_loop.simps(2) [simp del]

subsection \<open>The loop\<close>

lemma concat_slices: "concat (slices ys cs base) = ys"
  by (induction cs arbitrary: ys base) simp_all

lemma map_butlast_last:
  "rs \<noteq> [] \<Longrightarrow> map f rs = map f (butlast rs) @ [f (last rs)]"
  by (induction rs) auto

lemma split_loop_view:
  assumes "split_inv n st" and "length (inodes (deref (mem st) (current st))) \<le> i"
  shows "map (\<lambda>r. inodes (deref (mem (split_loop L n threshold tot i rest st)) r))
           (nodes (split_loop L n threshold tot i rest st))
         = map (\<lambda>r. inodes (deref (mem st) r)) (butlast (nodes st))
           @ slices (inodes (deref (mem st) (current st)) @ rest)
               (spec_cuts (<) L (isLeaf (deref (mem st) n)) threshold tot i rest
                  (length (inodes (deref (mem st) (current st)))) (running st))
               (i - length (inodes (deref (mem st) (current st))))"
  using assms
proof (induction rest arbitrary: st i)
  case Nil
  have "nodes st \<noteq> []" "last (nodes st) = current st"
    using Nil.prems(1) by (simp_all add: split_inv_def)
  then show ?case
    using map_butlast_last [of "nodes st" "\<lambda>r. inodes (deref (mem st) r)"] by simp
next
  case (Cons item rest)
  let ?leaf = "isLeaf (deref (mem st) n)"
  let ?e = "elemSize_of L ?leaf item"
  let ?cur = "inodes (deref (mem st) (current st))"
  let ?cond = "length ?cur \<ge> minKeysPerPage L \<and> int i < int tot - int (minKeysPerPage L)
                 \<and> running st + ?e > threshold"
  have nlt: "n < length (heap (mem st))" using Cons.prems(1) by (simp add: split_inv_def)
  have ne: "nodes st \<noteq> []" "last (nodes st) = current st"
    using Cons.prems(1) by (simp_all add: split_inv_def)
  have view_eq: "map (\<lambda>r. inodes (deref (mem st) r)) (nodes st)
                 = map (\<lambda>r. inodes (deref (mem st) r)) (butlast (nodes st)) @ [?cur]"
    using map_butlast_last [of "nodes st" "\<lambda>r. inodes (deref (mem st) r)"] ne by simp
  show ?case
  proof (cases ?cond)
    case True
    let ?st1 = "split_cut n st L"
    let ?st2 = "split_append item ?e ?st1"
    have inv1: "split_inv n ?st1" using Cons.prems(1) by (rule split_cut_inv)
    have inv2: "split_inv n ?st2" using inv1 by (rule split_append_inv)
    have cur2: "inodes (deref (mem ?st2) (current ?st2)) = [item]"
      using split_append_current [OF inv1, of item ?e]
      by (simp add: split_append_simps split_cut_current(3))
    have leaf2: "isLeaf (deref (mem ?st2) n) = ?leaf"
      using split_cut_frame [of st n L] nlt by (simp add: split_append_isLeaf frame_def)
    have bl: "butlast (nodes ?st2) = nodes st"
      by (simp add: split_append_simps split_cut_nodes(1) [of n st L])
    have v2: "map (\<lambda>r. inodes (deref (mem ?st2) r)) (butlast (nodes ?st2))
              = map (\<lambda>r. inodes (deref (mem st) r)) (nodes st)"
      using split_append_butlast [OF inv1, of item ?e] split_cut_view [OF Cons.prems(1), of L]
      by (simp add: bl split_cut_nodes(1) [of n st L])
    have run2: "running ?st2 = int (pageHeaderSize L) + ?e"
      by (simp add: split_append_simps split_cut_nodes(2))
    have step: "split_loop L n threshold tot i (item # rest) st
                = split_loop L n threshold tot (i + 1) rest ?st2"
      using True by (simp add: split_loop_Cons Let_def)
    have ih: "map (\<lambda>r. inodes (deref (mem (split_loop L n threshold tot (i + 1) rest ?st2)) r))
                (nodes (split_loop L n threshold tot (i + 1) rest ?st2))
              = map (\<lambda>r. inodes (deref (mem st) r)) (nodes st)
                @ slices ([item] @ rest)
                    (spec_cuts (<) L ?leaf threshold tot (i + 1) rest 1 (int (pageHeaderSize L) + ?e))
                    i"
      using Cons.IH [OF inv2, of "i + 1"] by (simp add: cur2 leaf2 v2 run2)
    have cuts: "spec_cuts (<) L ?leaf threshold tot i (item # rest) (length ?cur) (running st)
                = i # spec_cuts (<) L ?leaf threshold tot (i + 1) rest 1 (int (pageHeaderSize L) + ?e)"
      using True by simp
    have sub: "i - (i - length ?cur) = length ?cur"
      using Cons.prems(2) by simp
    show ?thesis
      unfolding step cuts using ih sub by (simp add: view_eq)
  next
    case False
    let ?st2 = "split_append item ?e st"
    have inv2: "split_inv n ?st2" using Cons.prems(1) by (rule split_append_inv)
    have cur2: "inodes (deref (mem ?st2) (current ?st2)) = ?cur @ [item]"
      using split_append_current [OF Cons.prems(1), of item ?e] by (simp add: split_append_simps)
    have leaf2: "isLeaf (deref (mem ?st2) n) = ?leaf"
      by (simp add: split_append_isLeaf)
    have v2: "map (\<lambda>r. inodes (deref (mem ?st2) r)) (butlast (nodes ?st2))
              = map (\<lambda>r. inodes (deref (mem st) r)) (butlast (nodes st))"
      using split_append_butlast [OF Cons.prems(1), of item ?e] by (simp add: split_append_simps)
    have run2: "running ?st2 = running st + ?e"
      by (simp add: split_append_simps)
    have step: "split_loop L n threshold tot i (item # rest) st
                = split_loop L n threshold tot (i + 1) rest ?st2"
      using False by (auto simp: split_loop_Cons Let_def)
    have ih: "map (\<lambda>r. inodes (deref (mem (split_loop L n threshold tot (i + 1) rest ?st2)) r))
                (nodes (split_loop L n threshold tot (i + 1) rest ?st2))
              = map (\<lambda>r. inodes (deref (mem st) r)) (butlast (nodes st))
                @ slices ((?cur @ [item]) @ rest)
                    (spec_cuts (<) L ?leaf threshold tot (i + 1) rest (length ?cur + 1) (running st + ?e))
                    (i + 1 - (length ?cur + 1))"
      using Cons.IH [OF inv2, of "i + 1"] Cons.prems(2) by (simp add: cur2 leaf2 v2 run2)
    have cuts: "spec_cuts (<) L ?leaf threshold tot i (item # rest) (length ?cur) (running st)
                = spec_cuts (<) L ?leaf threshold tot (i + 1) rest (length ?cur + 1) (running st + ?e)"
      using False by auto
    show ?thesis
      unfolding step cuts using ih Cons.prems(2) by simp
  qed
qed

lemma split_loop_isLeaf:
  assumes "split_inv n st"
  shows "\<forall>r \<in> set (nodes (split_loop L n threshold tot i rest st)).
           isLeaf (deref (mem (split_loop L n threshold tot i rest st)) r) = isLeaf (deref (mem st) n)"
  using assms
proof (induction rest arbitrary: st i)
  case Nil
  then show ?case by (simp add: split_inv_def)
next
  case (Cons item rest)
  let ?e = "elemSize_of L (isLeaf (deref (mem st) n)) item"
  let ?st1 = "if length (inodes (deref (mem st) (current st))) \<ge> minKeysPerPage L
                    \<and> int i < int tot - int (minKeysPerPage L)
                    \<and> running st + ?e > threshold
                 then split_cut n st L else st"
  have nlt: "n < length (heap (mem st))" using Cons.prems by (simp add: split_inv_def)
  have inv1: "split_inv n ?st1" using Cons.prems by (simp add: split_cut_inv)
  have leaf1: "isLeaf (deref (mem ?st1) n) = isLeaf (deref (mem st) n)"
    using split_cut_frame [of st n L] nlt by (simp add: frame_def)
  have inv2: "split_inv n (split_append item ?e ?st1)" using inv1 by (rule split_append_inv)
  have leaf2: "isLeaf (deref (mem (split_append item ?e ?st1)) n) = isLeaf (deref (mem st) n)"
    using leaf1 by (simp only: split_append_isLeaf)
  show ?case
    using Cons.IH [OF inv2, of "i + 1"] leaf2 by (simp only: split_loop_Cons Let_def)
qed

subsection \<open>split as a whole\<close>

lemma size_node_spec: "size_node L nd = spec_size L nd"
proof -
  have "foldl (\<lambda>sz item. sz + (c + len (key item) + len (val item))) a xs
        = a + (\<Sum>item\<leftarrow>xs. c + len (key item) + len (val item))" for c a and xs :: "inode list"
    by (induction xs arbitrary: a) simp_all
  then show ?thesis
    by (simp add: size_node_def spec_size_def elemSize_of_def pageElementSize_def)
qed

lemma split_no_split:
  "spec_no_split L (deref s n) pageSize \<Longrightarrow> split L n pageSize s = ([n], s)"
  by (auto simp: split_def spec_no_split_def len_def size_node_spec)

lemma split_start:
  assumes "\<not> spec_no_split L (deref s n) pageSize"
  shows "split L n pageSize s
         = (let st = split_loop L n (go_quot pageSize 2) (length (inodes (deref s n))) 0
                       (inodes (deref s n))
                       \<lparr>nodes = [n], current = n, running = int (pageHeaderSize L),
                        mem = assign n (\<lambda>x. x\<lparr>inodes := []\<rparr>) s\<rparr>
            in (nodes st, mem st))"
  using assms by (auto simp: split_def spec_no_split_def len_def Let_def size_node_spec)

lemma returned_inodes_spec:
  assumes "n < length (heap s)"
  shows "returned_inodes L n pageSize s = spec_split (<) L (deref s n) pageSize"
proof (cases "spec_no_split L (deref s n) pageSize")
  case True
  then show ?thesis by (simp add: returned_inodes_def split_no_split spec_split_def)
next
  case False
  let ?st = "\<lparr>nodes = [n], current = n, running = int (pageHeaderSize L),
               mem = assign n (\<lambda>x. x\<lparr>inodes := []\<rparr>) s\<rparr>"
  let ?xs = "inodes (deref s n)"
  have inv: "split_inv n ?st"
    using assms by (simp add: split_inv_def length_heap_assign)
  have cur: "inodes (deref (mem ?st) (current ?st)) = []"
    using assms by (simp add: deref_assign)
  have leaf: "isLeaf (deref (mem ?st) n) = isLeaf (deref s n)"
    by (simp add: deref_assign)
  show ?thesis
    using split_loop_view [OF inv, of 0 L "go_quot pageSize 2" "length ?xs" ?xs] cur leaf False
    by (simp add: returned_inodes_def split_start Let_def spec_split_def)
qed

lemma returned_isLeaf_same:
  assumes "n < length (heap s)"
  shows "\<forall>b \<in> set (returned_isLeaf L n pageSize s). b = isLeaf (deref s n)"
proof (cases "spec_no_split L (deref s n) pageSize")
  case True
  then show ?thesis by (simp add: returned_isLeaf_def split_no_split)
next
  case False
  let ?st = "\<lparr>nodes = [n], current = n, running = int (pageHeaderSize L),
               mem = assign n (\<lambda>x. x\<lparr>inodes := []\<rparr>) s\<rparr>"
  let ?xs = "inodes (deref s n)"
  have inv: "split_inv n ?st"
    using assms by (simp add: split_inv_def length_heap_assign)
  have leaf: "isLeaf (deref (mem ?st) n) = isLeaf (deref s n)"
    by (simp add: deref_assign)
  show ?thesis
    using split_loop_isLeaf [OF inv, of L "go_quot pageSize 2" "length ?xs" 0 ?xs] leaf False
    by (simp add: returned_isLeaf_def split_start Let_def)
qed

subsection \<open>The claims about split\<close>


lemma store6_inodes:
  "inodes (deref store6 0)
   = map (\<lambda>k. mk_inode k ''0123456701234567'') (five_keys @ [''00000006''])"
  by (simp add: store6_def deref_def node_zero_def)

lemma store6_isLeaf: "isLeaf (deref store6 0) = False"
  by (simp add: store6_def deref_def node_zero_def)

lemma bolt_layout_simps:
  "pageHeaderSize bolt_layout = 16" "leafPageElementSize bolt_layout = 16"
  "branchPageElementSize bolt_layout = 16" "minKeysPerPage bolt_layout = 2"
  by (simp_all add: bolt_layout_def)

lemma store6_elemSize:
  "elemSize_of bolt_layout False (mk_inode k ''0123456701234567'') = 32 + int (length k)"
  by (simp add: elemSize_of_def bolt_layout_def mk_inode_def bytes_of_def len_def)

lemma store6_no_split: "\<not> spec_no_split bolt_layout (deref store6 0) 100"
  by (simp add: spec_no_split_def spec_size_def store6_inodes store6_isLeaf store6_elemSize
      five_keys_def bolt_layout_simps)


lemma store6_strict:
  "map length (spec_split (<) bolt_layout (deref store6 0) 100) = [2, 4]"
  by (simp add: spec_split_def store6_no_split store6_inodes store6_isLeaf store6_elemSize
      five_keys_def go_quot_def bolt_layout_simps)







text \<open>
  Claim C10.  \<open>split\<close> conserves the data: the inode sequences of the returned nodes,
  concatenated in list order, are the inode sequence that \<open>n\<close> had, and every returned
  node has the \<open>isLeaf\<close> flag of \<open>n\<close>.
\<close>

theorem split_conserves_inodes:
  assumes "n < length (heap s)"
  shows "concat (returned_inodes L n pageSize s) = inodes (deref s n)
         \<and> (\<forall>b \<in> set (returned_isLeaf L n pageSize s). b = isLeaf (deref s n))
         \<and> length (returned_isLeaf L n pageSize s) = length (fst (split L n pageSize s))"
proof -
  have "concat (returned_inodes L n pageSize s) = inodes (deref s n)"
    by (simp add: returned_inodes_spec [OF assms] spec_split_def concat_slices)
  then show ?thesis
    using returned_isLeaf_same [OF assms, of L pageSize] by (simp add: returned_isLeaf_def)
qed

theorem split_conserves_inodes_witness:
  "0 < length (heap store6)
   \<and> length (fst (split bolt_layout 0 100 store6)) = 2
   \<and> concat (returned_inodes bolt_layout 0 100 store6) = inodes (deref store6 0)
   \<and> returned_isLeaf bolt_layout 0 100 store6 = [False, False]"
proof -
  have h: "0 < length (heap store6)" by (simp add: store6_def)
  have "length (map length (returned_inodes bolt_layout 0 100 store6)) = 2"
    by (simp only: returned_inodes_spec [OF h] store6_strict) simp
  then have l: "length (fst (split bolt_layout 0 100 store6)) = 2"
    by (simp add: returned_inodes_def)
  obtain a b where ab: "returned_isLeaf bolt_layout 0 100 store6 = [a, b]"
    using l by (auto simp: returned_isLeaf_def length_Suc_conv numeral_2_eq_2)
  have "a = False \<and> b = False"
    using split_conserves_inodes [OF h, of bolt_layout 100] by (simp add: ab store6_isLeaf)
  then show ?thesis
    using h l ab split_conserves_inodes [OF h, of bolt_layout 100] by simp
qed

section \<open>put keeps a node sorted\<close>

lemma sort_Search_loop_correct:
  assumes "i \<le> j" and "j \<le> n"
    and "\<And>a b. a \<le> b \<Longrightarrow> b < n \<Longrightarrow> f a \<Longrightarrow> f b"
    and "\<forall>k < i. \<not> f k" and "\<forall>k. j \<le> k \<and> k < n \<longrightarrow> f k"
  shows "i \<le> sort_Search_loop f i j \<and> sort_Search_loop f i j \<le> j
         \<and> (\<forall>k < sort_Search_loop f i j. \<not> f k)
         \<and> (\<forall>k. sort_Search_loop f i j \<le> k \<and> k < n \<longrightarrow> f k)"
  using assms
proof (induction f i j rule: sort_Search_loop.induct)
  case (1 f i j)
  show ?case
  proof (cases "i < j")
    case False
    then have "sort_Search_loop f i j = i" by (subst sort_Search_loop.simps) simp
    moreover have "i = j" using False "1.prems"(1) by simp
    ultimately show ?thesis using "1.prems"(4,5) by simp
  next
    case True
    let ?h = "(i + j) div 2"
    have hb: "i \<le> ?h" "?h < j" using True by auto
    show ?thesis
    proof (cases "f ?h")
      case False
      define r where "r = sort_Search_loop f (?h + 1) j"
      have eq: "sort_Search_loop f i j = r"
        unfolding r_def using True False by (subst sort_Search_loop.simps) (simp add: Let_def)
      have lo: "\<forall>k < ?h + 1. \<not> f k"
      proof (intro allI impI)
        fix k assume "k < ?h + 1"
        then have "k \<le> ?h" by simp
        moreover have "?h < n" using hb "1.prems"(2) by simp
        ultimately show "\<not> f k" using "1.prems"(3) [of k ?h] False by blast
      qed
      have "?h + 1 \<le> r \<and> r \<le> j \<and> (\<forall>k < r. \<not> f k) \<and> (\<forall>k. r \<le> k \<and> k < n \<longrightarrow> f k)"
        unfolding r_def
        using "1.IH"(1) [OF True refl False _ "1.prems"(2) "1.prems"(3) lo "1.prems"(5)] hb
        by simp
      then show ?thesis using eq hb by simp
    next
      case fh: True
      define r where "r = sort_Search_loop f i ?h"
      have eq: "sort_Search_loop f i j = r"
        unfolding r_def using True fh by (subst sort_Search_loop.simps) (simp add: Let_def)
      have hn: "?h \<le> n" using hb "1.prems"(2) by simp
      have hi: "\<forall>k. ?h \<le> k \<and> k < n \<longrightarrow> f k"
        using "1.prems"(3) fh by blast
      have "i \<le> r \<and> r \<le> ?h \<and> (\<forall>k < r. \<not> f k) \<and> (\<forall>k. r \<le> k \<and> k < n \<longrightarrow> f k)"
        unfolding r_def
        using "1.IH"(2) [OF True refl _ hb(1) hn "1.prems"(3) "1.prems"(4) hi] fh
        by simp
      then show ?thesis using eq hb by simp
    qed
  qed
qed

lemma sort_Search_correct:
  assumes "\<And>a b. a \<le> b \<Longrightarrow> b < n \<Longrightarrow> f a \<Longrightarrow> f b"
  shows "sort_Search n f \<le> n \<and> (\<forall>k < sort_Search n f. \<not> f k)
         \<and> (\<forall>k. sort_Search n f \<le> k \<and> k < n \<longrightarrow> f k)"
proof -
  have "0 \<le> sort_Search_loop f 0 n \<and> sort_Search_loop f 0 n \<le> n
         \<and> (\<forall>k < sort_Search_loop f 0 n. \<not> f k)
         \<and> (\<forall>k. sort_Search_loop f 0 n \<le> k \<and> k < n \<longrightarrow> f k)"
  proof (rule sort_Search_loop_correct [of 0 n n f])
    show "\<And>a b. a \<le> b \<Longrightarrow> b < n \<Longrightarrow> f a \<Longrightarrow> f b" by (rule assms)
  qed auto
  then show ?thesis by (simp add: sort_Search_def)
qed


lemma put_index:
  fixes xs :: "inode list" and k :: bytes
  assumes srt: "sorted (map key xs)"
  defines "r \<equiv> sort_Search (length xs) (\<lambda>i. bytes_Compare (key (xs ! i)) k \<noteq> - 1)"
  shows "r \<le> length xs" and "take r xs = filter (\<lambda>x. key x < k) xs"
    and "drop r xs = filter (\<lambda>x. \<not> key x < k) xs"
    and "(k \<in> set (map key xs)) = (r < length xs \<and> key (xs ! r) = k)"
proof -
  let ?f = "\<lambda>i. bytes_Compare (key (xs ! i)) k \<noteq> - 1"
  have f: "?f i = (\<not> key (xs ! i) < k)" for i by (simp add: bytes_Compare_def)
  have mono: "\<And>a b. a \<le> b \<Longrightarrow> b < length xs \<Longrightarrow> ?f a \<Longrightarrow> ?f b"
  proof -
    fix a b assume ab: "a \<le> b" "b < length xs" and fa: "?f a"
    have "map key xs ! a \<le> map key xs ! b"
      using srt ab by (intro sorted_nth_mono) simp_all
    then have "key (xs ! a) \<le> key (xs ! b)" using ab by simp
    moreover have "\<not> key (xs ! a) < k" using fa f by blast
    ultimately have "\<not> key (xs ! b) < k" by auto
    then show "?f b" using f by blast
  qed
  have c: "r \<le> length xs \<and> (\<forall>j < r. \<not> ?f j) \<and> (\<forall>j. r \<le> j \<and> j < length xs \<longrightarrow> ?f j)"
    unfolding r_def by (rule sort_Search_correct [OF mono])
  show le: "r \<le> length xs" using c by blast
  have lo: "\<forall>x \<in> set (take r xs). key x < k"
  proof
    fix x assume "x \<in> set (take r xs)"
    then obtain j where "j < r" "j < length xs" "x = xs ! j"
      using le by (auto simp: in_set_conv_nth)
    then show "key x < k" using c f by blast
  qed
  have hi: "\<forall>x \<in> set (drop r xs). \<not> key x < k"
  proof
    fix x assume "x \<in> set (drop r xs)"
    then obtain j where "j < length xs - r" "x = xs ! (r + j)"
      using le by (auto simp: in_set_conv_nth)
    then have "?f (r + j)" using c by simp
    then show "\<not> key x < k" using f \<open>x = xs ! (r + j)\<close> by blast
  qed
  have "filter (\<lambda>x. key x < k) xs
          = filter (\<lambda>x. key x < k) (take r xs) @ filter (\<lambda>x. key x < k) (drop r xs)"
    by (metis append_take_drop_id filter_append)
  also have "\<dots> = take r xs" using lo hi by (simp add: filter_id_conv filter_empty_conv)
  finally show "take r xs = filter (\<lambda>x. key x < k) xs" by simp
  have "filter (\<lambda>x. \<not> key x < k) xs
          = filter (\<lambda>x. \<not> key x < k) (take r xs) @ filter (\<lambda>x. \<not> key x < k) (drop r xs)"
    by (metis append_take_drop_id filter_append)
  also have "\<dots> = drop r xs" using lo hi by (simp add: filter_id_conv filter_empty_conv)
  finally show "drop r xs = filter (\<lambda>x. \<not> key x < k) xs" by simp
  show "(k \<in> set (map key xs)) = (r < length xs \<and> key (xs ! r) = k)"
  proof
    assume "k \<in> set (map key xs)"
    then obtain m where m: "m < length xs" "key (xs ! m) = k"
      by (auto simp: in_set_conv_nth)
    have "\<not> m < r" using c f m by auto
    then have rm: "r \<le> m" by simp
    then have rl: "r < length xs" using m by simp
    have "map key xs ! r \<le> map key xs ! m"
      using srt rm m by (intro sorted_nth_mono) simp_all
    then have "key (xs ! r) \<le> k" using m rl by simp
    moreover have "\<not> key (xs ! r) < k" using c f rl by auto
    ultimately show "r < length xs \<and> key (xs ! r) = k" using rl by auto
  next
    assume "r < length xs \<and> key (xs ! r) = k"
    then have "xs ! r \<in> set xs" "key (xs ! r) = k" by simp_all
    then show "k \<in> set (map key xs)" by force
  qed
qed

lemma put_shift:
  assumes "r \<le> length xs"
  shows "(let zs = xs @ [z] in take (r + 1) zs @ take (length zs - (r + 1)) (drop r zs))[r := new]
         = take r xs @ new # drop r xs"
proof -
  have a: "take (r + 1) (xs @ [z]) = take r xs @ [(xs @ [z]) ! r]"
    using assms by (simp add: take_Suc_conv_app_nth nth_append)
  have b: "take (length (xs @ [z]) - (r + 1)) (drop r (xs @ [z])) = drop r xs"
    using assms by simp
  have "(take r xs @ [(xs @ [z]) ! r] @ drop r xs)[r := new] = take r xs @ new # drop r xs"
    using assms by (simp add: list_update_append)
  then show ?thesis unfolding Let_def a b by simp
qed

lemma put_inodes:
  fixes xs :: "inode list" and k v :: bytes and p :: "64 word" and f :: "32 word"
  assumes "sorted (map key xs)" and "xs = inodes n"
  defines "i \<equiv> length (filter (\<lambda>x. key x < k) xs)"
  defines "new \<equiv> \<lparr>flags = f, pgid = p, key = k, val = v\<rparr>"
  shows "inodes (put n k k v p f)
         = (if k \<in> set (map key xs) then xs[i := new] else take i xs @ new # drop i xs)"
    and "i \<le> length xs" and "take i xs = filter (\<lambda>x. key x < k) xs"
    and "drop i xs = filter (\<lambda>x. \<not> key x < k) xs"
    and "(k \<in> set (map key xs)) = (i < length xs \<and> key (xs ! i) = k)"
proof -
  define r where "r = sort_Search (length xs) (\<lambda>i. bytes_Compare (key (xs ! i)) k \<noteq> - 1)"
  note pi = put_index [OF assms(1), of k, folded r_def]
  have ri: "r = i" using pi(1,2) unfolding i_def by (metis length_take min.absorb2)
  show "i \<le> length xs" "take i xs = filter (\<lambda>x. key x < k) xs"
    "drop i xs = filter (\<lambda>x. \<not> key x < k) xs"
    "(k \<in> set (map key xs)) = (i < length xs \<and> key (xs ! i) = k)"
    using pi ri by simp_all
  have ex: "(0 < length xs \<and> r < length xs \<and> bytes_Equal (key (xs ! r)) k) = (k \<in> set (map key xs))"
    using pi(4) by (auto simp: bytes_Equal_def)
  have u: "inodes (put n k k v p f)
        = (if 0 < length xs \<and> r < length xs \<and> bytes_Equal (key (xs ! r)) k then xs[r := new]
           else (let zs = xs @ [inode_zero]
                 in take (r + 1) zs @ take (length zs - (r + 1)) (drop r zs))[r := new])"
    by (simp add: put_def Let_def r_def assms(2) new_def)
  show "inodes (put n k k v p f)
         = (if k \<in> set (map key xs) then xs[i := new] else take i xs @ new # drop i xs)"
    unfolding u ex using put_shift [OF pi(1)] ri by simp
qed

lemma put_example_inodes:
  "inodes put_example =
     [\<lparr>flags = 0, pgid = 0, key = bytes_of ''bar'', val = bytes_of ''1''\<rparr>,
      \<lparr>flags = 0, pgid = 0, key = bytes_of ''baz'', val = bytes_of ''2''\<rparr>,
      \<lparr>flags = 0, pgid = 0, key = bytes_of ''foo'', val = bytes_of ''3''\<rparr>]"
  unfolding put_example_def
  by (simp add: put_def node_zero_def inode_zero_def sort_Search_def sort_Search_loop.simps
        bytes_Compare_def bytes_Equal_def bytes_of_def Let_def)


lemma put_sorted_result:
  fixes xs :: "inode list" and k :: bytes
  assumes srt: "sorted (map key xs)"
    and t: "take i xs = filter (\<lambda>x. key x < k) xs"
    and d: "drop i xs = filter (\<lambda>x. \<not> key x < k) xs"
    and kn: "key new = k"
  shows "sorted (map key (take i xs @ new # drop i xs))"
proof -
  have a: "sorted (map key (filter (\<lambda>x. key x < k) xs))" using srt by (rule sorted_filter)
  have b: "sorted (map key (filter (\<lambda>x. \<not> key x < k) xs))" using srt by (rule sorted_filter)
  show ?thesis unfolding t d using a b kn
    by (auto simp: sorted_append less_imp_le not_less intro: less_imp_le order_trans)
qed

text \<open>
  Claim C4.  On a node whose inodes are sorted by key, \<open>put(k, k, v, pgid, flags)\<close>
  overwrites the inode with key \<open>k\<close> in place when the key is present (the count is
  unchanged), and otherwise inserts the new inode at its sorted position (the count
  grows by one); the position is the number of inodes with a smaller key, and the
  keys stay sorted.  Putting \<open>baz\<close>, \<open>foo\<close> with value \<open>0\<close>, \<open>bar\<close> and then \<open>foo\<close> with value
  \<open>3\<close> gives the three inodes \<open>bar\<close>, \<open>baz\<close>, \<open>foo\<close>, the last with value \<open>3\<close>.
\<close>

theorem put_sorted:
  assumes "sorted (map key (inodes n))"
  shows "(let xs = inodes n;
              i = length (filter (\<lambda>x. key x < k) xs);
              new = \<lparr>flags = f, pgid = p, key = k, val = v\<rparr>;
              ys = inodes (put n k k v p f)
          in (if k \<in> set (map key xs)
              then i < length xs \<and> key (xs ! i) = k \<and> ys = xs[i := new] \<and> length ys = length xs
              else ys = take i xs @ new # drop i xs \<and> length ys = length xs + 1)
             \<and> sorted (map key ys))
         \<and> inodes put_example =
             [\<lparr>flags = 0, pgid = 0, key = bytes_of ''bar'', val = bytes_of ''1''\<rparr>,
              \<lparr>flags = 0, pgid = 0, key = bytes_of ''baz'', val = bytes_of ''2''\<rparr>,
              \<lparr>flags = 0, pgid = 0, key = bytes_of ''foo'', val = bytes_of ''3''\<rparr>]"
proof -
  define xs where "xs = inodes n"
  define i where "i = length (filter (\<lambda>x. key x < k) xs)"
  define new where "new = \<lparr>flags = f, pgid = p, key = k, val = v\<rparr>"
  define ys where "ys = inodes (put n k k v p f)"
  have srt: "sorted (map key xs)" using assms by (simp add: xs_def)
  note pi1 = put_inodes(1) [OF srt xs_def, where k = k and f = f and p = p and v = v,
      folded i_def new_def ys_def]
  note pi = put_inodes(2-5) [OF srt xs_def, where k = k, folded i_def]
  have kn: "key new = k" by (simp add: new_def)
  have "(if k \<in> set (map key xs)
         then i < length xs \<and> key (xs ! i) = k \<and> ys = xs[i := new] \<and> length ys = length xs
         else ys = take i xs @ new # drop i xs \<and> length ys = length xs + 1)
        \<and> sorted (map key ys)"
  proof (cases "k \<in> set (map key xs)")
    case True
    then have e: "i < length xs" "key (xs ! i) = k" using pi(4) by simp_all
    have y: "ys = xs[i := new]" using pi1 True by simp
    have "map key ys = (map key xs)[i := k]" unfolding y by (simp add: map_update kn)
    also have "\<dots> = map key xs" using e by (metis list_update_id nth_map)
    finally show ?thesis using True e y srt by simp
  next
    case False
    have y: "ys = take i xs @ new # drop i xs" using pi1 False by simp
    have "sorted (map key ys)" unfolding y by (rule put_sorted_result [OF srt pi(2) pi(3) kn])
    then show ?thesis using False y pi(1) by simp
  qed
  then show ?thesis
    unfolding Let_def xs_def [symmetric] i_def [symmetric] new_def [symmetric] ys_def [symmetric]
    using put_example_inodes by blast
qed

text \<open>
  The theorem at the node of TestNodePut: \<open>foo\<close> is overwritten, \<open>bat\<close> is inserted
  between \<open>bar\<close> and \<open>baz\<close>.
\<close>

theorem put_sorted_witness:
  "sorted (map key (inodes put_example))
   \<and> inodes (put put_example (bytes_of ''foo'') (bytes_of ''foo'') (bytes_of ''9'') 0 0) =
             [\<lparr>flags = 0, pgid = 0, key = bytes_of ''bar'', val = bytes_of ''1''\<rparr>,
              \<lparr>flags = 0, pgid = 0, key = bytes_of ''baz'', val = bytes_of ''2''\<rparr>,
              \<lparr>flags = 0, pgid = 0, key = bytes_of ''foo'', val = bytes_of ''9''\<rparr>]
   \<and> inodes (put put_example (bytes_of ''bat'') (bytes_of ''bat'') (bytes_of ''7'') 0 0) =
             [\<lparr>flags = 0, pgid = 0, key = bytes_of ''bar'', val = bytes_of ''1''\<rparr>,
              \<lparr>flags = 0, pgid = 0, key = bytes_of ''bat'', val = bytes_of ''7''\<rparr>,
              \<lparr>flags = 0, pgid = 0, key = bytes_of ''baz'', val = bytes_of ''2''\<rparr>,
              \<lparr>flags = 0, pgid = 0, key = bytes_of ''foo'', val = bytes_of ''3''\<rparr>]"
  using put_sorted [where n = put_example and k = "bytes_of ''foo''" and f = 0 and p = 0 and v = "bytes_of ''9''"]
        put_sorted [where n = put_example and k = "bytes_of ''bat''" and f = 0 and p = 0 and v = "bytes_of ''7''"]
  by (simp add: put_example_inodes bytes_of_def Let_def)

section \<open>Proofs: the size of the memory map\<close>

lemma mmap_consts: "minMmapSize = 4194304" "maxMmapStep = 1073741824"
  by (simp_all add: minMmapSize_def maxMmapStep_def)

lemma go_int_id:
  assumes "- (2 ^ (w - 1)) \<le> x" and "x < 2 ^ (w - 1)"
  shows "go_int w x = x"
  unfolding go_int_def using assms by (rule signed_take_bit_int_eq_self)

lemma go_quot_nonneg: "0 \<le> a \<Longrightarrow> 0 < b \<Longrightarrow> go_quot a b = a div b"
  by (cases "a = 0") (simp_all add: go_quot_def)

lemma go_rem_nonneg: "0 \<le> a \<Longrightarrow> 0 < b \<Longrightarrow> go_rem a b = a mod b"
  by (cases "a = 0") (simp_all add: go_rem_def)

lemma round_up:
  fixes x p :: int
  assumes "0 \<le> x" and "0 < p" and "x mod p \<noteq> 0"
  shows "x < (x div p + 1) * p" and "(x div p + 1) * p < x + p" and "p dvd (x div p + 1) * p"
    and "0 \<le> x div p" and "x div p \<le> x"
proof -
  have e: "x = (x div p) * p + x mod p" by simp
  have "0 \<le> x mod p" using assms(2) by simp
  then have m: "0 < x mod p" "x mod p < p" using assms(2,3) pos_mod_bound [of p x] by linarith+
  have d: "(x div p + 1) * p = (x div p) * p + p" by (simp add: algebra_simps)
  show "x < (x div p + 1) * p" using e m d by linarith
  show "(x div p + 1) * p < x + p" using e m d by linarith
  show "p dvd (x div p + 1) * p" by simp
  show "0 \<le> x div p" using assms by (simp add: pos_imp_zdiv_nonneg_iff)
  show "x div p \<le> x" using zdiv_mono2 [of x 1 p] assms by simp
qed

lemma mmapSize_round:
  assumes x: "0 \<le> x" and p: "0 < p" and b: "x + p < 2 ^ (w - 1)"
  shows "\<exists>r. (if go_rem x p \<noteq> 0
              then Some (go_int w (go_int w (go_int w (go_quot x p) + 1) * p)) else Some x) = Some r
             \<and> x \<le> r \<and> r < x + p \<and> p dvd r"
proof (cases "x mod p = 0")
  case True
  then show ?thesis using x p by (simp add: go_rem_nonneg dvd_eq_mod_eq_0)
next
  case False
  note r = round_up [OF x p False]
  have pw: "(0::int) < 2 ^ (w - 1)" by simp
  have q: "go_int w (go_quot x p) = x div p"
    using r(4,5) b p x pw by (simp add: go_quot_nonneg go_int_id)
  have q1: "go_int w (x div p + 1) = x div p + 1"
    using r(4,5) b p x pw by (intro go_int_id) linarith+
  have q2: "go_int w ((x div p + 1) * p) = (x div p + 1) * p"
    using r(1,2) b p x pw by (intro go_int_id) linarith+
  show ?thesis using False x p r(1,2,3) by (simp add: go_rem_nonneg q q1 q2)
qed


lemma mmapSize_grow:
  assumes p: "0 < pageSize" and m: "minMmapSize \<le> sz"
    and t: "t = (if sz < maxMmapStep then sz * 2 else sz + maxMmapStep)"
    and b: "sz + maxMmapStep + pageSize < 2 ^ (w - 1)"
  shows "\<exists>r. mmapSize w pageSize sz = Some r \<and> t \<le> r \<and> r < t + pageSize \<and> pageSize dvd r"
proof -
  have sz: "0 < sz" using m by (simp add: mmap_consts)
  have t0: "0 \<le> t" "t \<le> sz + maxMmapStep" using sz t by (auto simp: mmap_consts)
  have tb: "t + pageSize < 2 ^ (w - 1)" using t0 b by linarith
  have g: "go_int w t = t" using t0 tb p by (intro go_int_id) linarith+
  have "mmapSize w pageSize sz
        = (if go_rem t pageSize \<noteq> 0
           then Some (go_int w (go_int w (go_int w (go_quot t pageSize) + 1) * pageSize))
           else Some t)"
    using m p g t by (auto simp: mmapSize_def Let_def)
  then show ?thesis using mmapSize_round [OF t0(1) p tb] by simp
qed

text \<open>
  Claim C5, as stated: for every size and every positive page size the result of
  \<open>mmapSize\<close> is at least \<open>minMmapSize\<close> and a multiple of the page size.  It fails twice.
  A size below \<open>minMmapSize\<close> returns \<open>minMmapSize\<close> at once, before the rounding: with a page
  size of 3 the result 4194304 is no multiple of it.  And the sum wraps around for a size
  near the largest \<open>int\<close>: the result is negative.
\<close>

theorem mmapSize_counterexample:
  "mmapSize 64 3 0 = Some 4194304 \<and> \<not> (3::int) dvd 4194304
   \<and> mmapSize 64 1 (2 ^ 63 - 1) = Some (- (2 ^ 63) + 2 ^ 30 - 1)"
  by (simp add: mmapSize_def mmap_consts go_int_def go_rem_def go_quot_def Let_def
        signed_take_bit_eq_take_bit_minus take_bit_eq_mod bit_iff_odd)

text \<open>
  Claim C5, amended.  For every positive page size and every size such that
  \<open>size + maxMmapStep + pageSize\<close> is at most the largest \<open>int\<close>, \<open>mmapSize\<close> returns a value that
  is at least \<open>minMmapSize\<close>: \<open>minMmapSize\<close> itself for a size below it, and otherwise the
  double of the size when it is below \<open>maxMmapStep\<close>, the size plus \<open>maxMmapStep\<close> when it is
  not, rounded up to the next multiple of the page size.  The result is a multiple of
  the page size when the size is at least \<open>minMmapSize\<close> or the page size divides
  \<open>minMmapSize\<close>.
\<close>

theorem mmapSize_grows:
  assumes "0 < pageSize" and "sz + maxMmapStep + pageSize < 2 ^ (w - 1)"
  shows "\<exists>r. mmapSize w pageSize sz = Some r \<and> minMmapSize \<le> r
           \<and> (sz < minMmapSize \<longrightarrow> r = minMmapSize)
           \<and> (minMmapSize \<le> sz \<and> sz < maxMmapStep \<longrightarrow> 2 * sz \<le> r \<and> r < 2 * sz + pageSize)
           \<and> (maxMmapStep \<le> sz \<longrightarrow> sz + maxMmapStep \<le> r \<and> r < sz + maxMmapStep + pageSize)
           \<and> (minMmapSize \<le> sz \<or> pageSize dvd minMmapSize \<longrightarrow> pageSize dvd r)"
proof (cases "sz < minMmapSize")
  case True
  then have "mmapSize w pageSize sz = Some minMmapSize" by (simp add: mmapSize_def)
  then show ?thesis using True by (simp add: mmap_consts)
next
  case False
  then have m: "minMmapSize \<le> sz" by simp
  obtain r where r: "mmapSize w pageSize sz = Some r"
      "(if sz < maxMmapStep then sz * 2 else sz + maxMmapStep) \<le> r"
      "r < (if sz < maxMmapStep then sz * 2 else sz + maxMmapStep) + pageSize" "pageSize dvd r"
    using mmapSize_grow [OF assms(1) m refl assms(2)] by blast
  have "minMmapSize \<le> r" using r(2) m by (auto simp: mmap_consts split: if_splits)
  then show ?thesis using r m by (auto simp: mmap_consts split: if_splits)
qed

text \<open>
  The theorem at a page size of 4096 bytes, and the three branches evaluated.
\<close>

theorem mmapSize_grows_witness:
  "(0::int) < 4096 \<and> 5000000 + maxMmapStep + 4096 < 2 ^ (64 - 1)
   \<and> mmapSize 64 4096 5000000 = Some 10002432
   \<and> mmapSize 64 4096 (3 * maxMmapStep + 1) = Some (4 * maxMmapStep + 4096)
   \<and> mmapSize 64 4096 100 = Some minMmapSize"
  using mmapSize_grows [of 4096 5000000 64]
  by (simp add: mmapSize_def mmap_consts go_int_def go_rem_def go_quot_def Let_def
        signed_take_bit_eq_take_bit_minus take_bit_eq_mod bit_iff_odd)

subsection \<open>The current meta\<close>

lemma meta_example_simps:
  "txid (meta_example i c) = i" "checksum (meta_example i c) = c"
  "(meta_example i c)\<lparr>checksum := d\<rparr> = meta_example i d"
  "(meta_example i c = meta_example j d) = (i = j \<and> c = d)"
  by (auto simp: meta_example_def)

text \<open>
  Claim C8, as stated: the meta selected as current is the one with the greater \<open>txid\<close>
  that also checksums correctly.  Whatever the checksum is, there are two metas, the
  one of the greater \<open>txid\<close> with a wrong checksum and the other with a right one, of which
  \<open>DB.meta\<close> selects the first: it compares the two \<open>txid\<close> and nothing else.
\<close>

theorem meta_ignores_checksum_counterexample:
  "\<forall>csum. (let m0 = meta_example 1 (csum (meta_example 1 0) + 1);
              m1 = meta_example 0 (csum (meta_example 0 0))
          in txid m0 > txid m1 \<and> \<not> checksums_correctly csum m0 \<and> checksums_correctly csum m1
             \<and> spec_current (checksums_correctly csum) m0 m1 = Some m1
             \<and> DB_meta \<lparr>meta0 = m0, meta1 = m1\<rparr> = m0 \<and> m0 \<noteq> m1)"
  by (simp add: Let_def meta_example_simps checksums_correctly_def spec_current_def DB_meta_def)

text \<open>
  Claim C8, amended.  For every database state with two meta pages, the meta selected as
  current is the one with the greater \<open>txid\<close>, and \<open>meta1\<close> when the two are equal; no other
  field of a meta, and so no checksum, takes part in the selection.
\<close>

theorem meta_greater_txid:
  "(txid (meta0 db) > txid (meta1 db) \<longrightarrow> DB_meta db = meta0 db)
   \<and> (txid (meta0 db) \<le> txid (meta1 db) \<longrightarrow> DB_meta db = meta1 db)
   \<and> txid (DB_meta db) = max (txid (meta0 db)) (txid (meta1 db))"
  by (auto simp: DB_meta_def max_def)

text \<open>
  The theorem at the transaction ids 7 and 6, and at two equal ones.
\<close>

theorem meta_greater_txid_witness:
  "txid (meta0 \<lparr>meta0 = meta_example 7 0, meta1 = meta_example 6 0\<rparr>)
     > txid (meta1 \<lparr>meta0 = meta_example 7 0, meta1 = meta_example 6 0\<rparr>)
   \<and> DB_meta \<lparr>meta0 = meta_example 7 0, meta1 = meta_example 6 0\<rparr> = meta_example 7 0
   \<and> DB_meta \<lparr>meta0 = meta_example 6 0, meta1 = meta_example 6 5\<rparr> = meta_example 6 5"
  using meta_greater_txid [of "\<lparr>meta0 = meta_example 7 0, meta1 = meta_example 6 0\<rparr>"]
        meta_greater_txid [of "\<lparr>meta0 = meta_example 6 0, meta1 = meta_example 6 5\<rparr>"]
  by (simp add: meta_example_simps)

section \<open>Proofs: buckets\<close>

lemma maxInt_word:
  assumes "0 < w" and "w \<le> 64"
  shows "(s = (word_of_int (maxInt w) :: 64 word)) = (uint s = maxInt w)"
proof -
  have "(2::int) ^ (w - 1) \<le> 2 ^ 63" using assms by (intro power_increasing) simp_all
  then have b: "0 \<le> maxInt w" "maxInt w < 2 ^ 64" by (simp_all add: maxInt_def)
  have "uint (word_of_int (maxInt w) :: 64 word) = maxInt w"
    using b by (simp add: uint_word_of_int take_bit_int_eq_self)
  then show ?thesis by (metis word_of_int_uint)
qed

text \<open>
  Claim C7, as stated: \<open>NextSequence\<close> returns \<open>ErrSequenceOverflow\<close> exactly when the stored
  sequence is \<open>2\<^sup>6\<^sup>4 - 1\<close>, and leaves it unchanged then.  On a system with 64-bit \<open>int\<close> a
  stored sequence of \<open>2\<^sup>6\<^sup>4 - 1\<close> is incremented to 0 and 0 is returned with no error, and
  the overflow error comes at the stored sequence \<open>2\<^sup>6\<^sup>3 - 1\<close>, the value of \<open>maxInt\<close>.
\<close>

theorem NextSequence_counterexample:
  "sequence (bucket_example True (- 1)) = 2 ^ 64 - 1
   \<and> NextSequence 64 (bucket_example True (- 1)) = ((0, None), bucket_example True 0)
   \<and> uint (2 ^ 63 - 1 :: 64 word) = 2 ^ 63 - 1
   \<and> NextSequence 64 (bucket_example True (2 ^ 63 - 1))
       = ((0, Some ErrSequenceOverflow), bucket_example True (2 ^ 63 - 1))"
  by (simp add: NextSequence_def bucket_example_def Writable_def maxInt_def go_int_def Let_def)


lemma uint_succ:
  assumes "uint (s :: 64 word) < maxInt w" and "0 < w" and "w \<le> 64"
  shows "uint (s + 1) = uint s + 1"
proof -
  have "(2::int) ^ (w - 1) \<le> 2 ^ 63" using assms by (intro power_increasing) simp_all
  then have "uint s + 1 < 2 ^ 64" using assms(1) by (simp add: maxInt_def)
  then show ?thesis by (simp add: uint_word_ariths take_bit_int_eq_self)
qed

text \<open>
  Claim C7, amended.  For every writable bucket of an open transaction, \<open>NextSequence\<close>
  returns \<open>ErrSequenceOverflow\<close> exactly when the stored sequence equals \<open>maxInt\<close>, and
  leaves the bucket unchanged then; for every other stored sequence it returns no error
  and increments the sequence by one, and for a stored sequence below \<open>maxInt\<close> the value
  returned is the new sequence.
\<close>

theorem NextSequence_overflow_at_maxInt:
  assumes "tx_open (tx b)" and "Writable b" and "0 < w" and "w \<le> 64"
  shows "(snd (fst (NextSequence w b)) = Some ErrSequenceOverflow) = (uint (sequence b) = maxInt w)
       \<and> (uint (sequence b) = maxInt w \<longrightarrow>
            NextSequence w b = ((0, Some ErrSequenceOverflow), b))
       \<and> (uint (sequence b) \<noteq> maxInt w \<longrightarrow>
            snd (fst (NextSequence w b)) = None
            \<and> snd (NextSequence w b) = b\<lparr>sequence := sequence b + 1\<rparr>)
       \<and> (uint (sequence b) < maxInt w \<longrightarrow>
            fst (fst (NextSequence w b)) = uint (sequence b) + 1
            \<and> uint (sequence (snd (NextSequence w b))) = uint (sequence b) + 1)"
proof -
  note mw = maxInt_word [OF assms(3,4), of "sequence b"]
  have a: "(snd (fst (NextSequence w b)) = Some ErrSequenceOverflow) = (uint (sequence b) = maxInt w)"
    using assms(1,2) mw by (simp add: NextSequence_def Let_def)
  have b: "uint (sequence b) = maxInt w \<longrightarrow> NextSequence w b = ((0, Some ErrSequenceOverflow), b)"
    using assms(1,2) mw by (simp add: NextSequence_def Let_def)
  have c: "uint (sequence b) \<noteq> maxInt w \<longrightarrow>
            snd (fst (NextSequence w b)) = None
            \<and> snd (NextSequence w b) = b\<lparr>sequence := sequence b + 1\<rparr>"
    using assms(1,2) mw by (simp add: NextSequence_def Let_def)
  have d: "uint (sequence b) < maxInt w \<longrightarrow>
            fst (fst (NextSequence w b)) = uint (sequence b) + 1
            \<and> uint (sequence (snd (NextSequence w b))) = uint (sequence b) + 1"
  proof
    assume lt: "uint (sequence b) < maxInt w"
    note u = uint_succ [OF lt assms(3,4)]
    have "(0::int) < 2 ^ (w - 1)" "0 \<le> uint (sequence b)" by simp_all
    then have "- (2 ^ (w - 1)) \<le> uint (sequence b) + 1" "uint (sequence b) + 1 < 2 ^ (w - 1)"
      using lt unfolding maxInt_def by linarith+
    then have g: "go_int w (uint (sequence b) + 1) = uint (sequence b) + 1" by (rule go_int_id)
    show "fst (fst (NextSequence w b)) = uint (sequence b) + 1
            \<and> uint (sequence (snd (NextSequence w b))) = uint (sequence b) + 1"
      using assms(1,2) mw lt u g by (simp add: NextSequence_def Let_def)
  qed
  show ?thesis using a b c d by blast
qed

text \<open>
  The theorem at the stored sequence 41 and a 64-bit \<open>int\<close>.
\<close>

theorem NextSequence_overflow_at_maxInt_witness:
  "tx_open (tx (bucket_example True 41)) \<and> Writable (bucket_example True 41)
   \<and> (0::nat) < 64 \<and> (64::nat) \<le> 64
   \<and> NextSequence 64 (bucket_example True 41) = ((42, None), bucket_example True 42)
   \<and> maxInt 64 = 9223372036854775807"
  using NextSequence_overflow_at_maxInt [of "bucket_example True 41" 64]
  by (simp add: NextSequence_def bucket_example_def Writable_def maxInt_def go_int_def Let_def)

lemma Put_cases:
  "Put M ins b k v =
     (if \<not> tx_open (tx b) then (Some ErrTxClosed, b)
      else if \<not> Writable b then (Some ErrBucketNotWritable, b)
      else if k = [] then (Some ErrKeyRequired, b)
      else if int (length k) > MaxKeySize M then (Some ErrKeyTooLarge, b)
      else if int (length v) > MaxValueSize M then (Some ErrValueTooLarge, b)
      else (None, (Cursor_count b)\<lparr>tx := (tx (Cursor_count b))
              \<lparr>tree := ins k v (root b) (tree (tx b))\<rparr>\<rparr>))"
  by (simp add: Put_def len_def Let_def Cursor_count_def)

text \<open>
  Claim C6.  For a bucket of an open transaction \<open>Put\<close> returns an error exactly when the
  transaction is read-only (\<open>ErrBucketNotWritable\<close>), the key is empty (\<open>ErrKeyRequired\<close>),
  the key is longer than \<open>MaxKeySize\<close> (\<open>ErrKeyTooLarge\<close>) or the value is longer than
  \<open>MaxValueSize\<close> (\<open>ErrValueTooLarge\<close>); and when it returns an error, the bucket, its
  transaction and the tree are as they were.
\<close>

theorem Put_validates:
  assumes "tx_open (tx b)"
  shows "(fst (Put M ins b k v) \<noteq> None)
           = (\<not> Writable b \<or> k = [] \<or> int (length k) > MaxKeySize M
              \<or> int (length v) > MaxValueSize M)
       \<and> (fst (Put M ins b k v) = Some ErrBucketNotWritable) = (\<not> Writable b)
       \<and> (fst (Put M ins b k v) = Some ErrKeyRequired \<longrightarrow> k = [])
       \<and> (fst (Put M ins b k v) = Some ErrKeyTooLarge \<longrightarrow> int (length k) > MaxKeySize M)
       \<and> (fst (Put M ins b k v) = Some ErrValueTooLarge \<longrightarrow> int (length v) > MaxValueSize M)
       \<and> fst (Put M ins b k v) \<noteq> Some ErrTxClosed
       \<and> fst (Put M ins b k v) \<noteq> Some ErrSequenceOverflow
       \<and> (fst (Put M ins b k v) \<noteq> None \<longrightarrow> snd (Put M ins b k v) = b)"
  using assms by (simp add: Put_cases)

text \<open>
  The theorem at a writable bucket, and the errors of three calls.
\<close>

theorem Put_validates_witness:
  "tx_open (tx (bucket_example True 0))
   \<and> fst (Put limits_example (\<lambda>k v r t. t) (bucket_example True 0) (bytes_of ''foo'') (bytes_of ''bar'')) = None
   \<and> Put limits_example (\<lambda>k v r t. t) (bucket_example False 0) (bytes_of ''foo'') (bytes_of ''bar'')
       = (Some ErrBucketNotWritable, bucket_example False 0)
   \<and> Put limits_example (\<lambda>k v r t. t) (bucket_example True 0) [] (bytes_of ''bar'')
       = (Some ErrKeyRequired, bucket_example True 0)
   \<and> Put limits_example (\<lambda>k v r t. t) (bucket_example True 0) (replicate 32769 0) []
       = (Some ErrKeyTooLarge, bucket_example True 0)"
  using Put_validates [of "bucket_example True 0" limits_example "\<lambda>k v r t. t" "bytes_of ''foo''" "bytes_of ''bar''"]
  by (simp add: Put_cases bucket_example_def limits_example_def Writable_def bytes_of_def)

end
